theory Spec2Isabelle
  imports Main "HOL-Library.Multiset" "HOL-Library.Char_ord" "HOL-Library.List_Lexorder"
begin

section \<open>Service declarations and the errors of \<^verbatim>\<open>fig/project.py\<close>\<close>

text \<open>
  A service declaration is the Python dict handed to \<^verbatim>\<open>sort_service_dicts\<close>: the key
  \<^verbatim>\<open>'name'\<close> is always present (\<^verbatim>\<open>from_config\<close> sets it), the keys \<^verbatim>\<open>'links'\<close> and
  \<^verbatim>\<open>'volumes_from'\<close> may be absent (\<open>None\<close>) and hold lists of strings when present,
  and every other key is carried in \<open>options\<close>. Equality of records is the dict equality
  that \<^verbatim>\<open>n in unmarked\<close> and \<^verbatim>\<open>unmarked.remove(n)\<close> use. Names are ordered as Python
  orders strings: lexicographically, character by character.
\<close>

record service_dict =
  name :: string
  links :: "string list option"
  volumes_from :: "string list option"
  options :: "(string \<times> string) list"

text \<open>
  The payload of a \<^verbatim>\<open>DependencyError\<close>. The generic message joins the elements of the
  Python set \<^verbatim>\<open>temporary_marked\<close>, whose iteration order is not fixed, so the model keeps
  the set itself.
\<close>

datatype dependency_msg =
    SelfLink string
  | SelfVolume string
  | CircularImport "string set"

text \<open>
  The payload of the \<^verbatim>\<open>ConfigurationError\<close> of \<^verbatim>\<open>get_volumes_from\<close>: the owning service
  and the name that is neither a service nor a container.
\<close>

datatype configuration_msg =
  VolumesFromNotFound string string

text \<open>
  The exceptions that can leave the modelled functions. \<^verbatim>\<open>DependencyError\<close> is a subclass
  of \<^verbatim>\<open>ConfigurationError\<close>; \<open>KeyError\<close> and \<open>ValueError\<close> are what \<^verbatim>\<open>set.remove\<close> and
  \<^verbatim>\<open>list.remove\<close> raise on a missing element.
\<close>

datatype error =
    DependencyError dependency_msg
  | ConfigurationError configuration_msg
  | NoSuchService string
  | KeyError string
  | ValueError

section \<open>\<^verbatim>\<open>sort_service_dicts\<close>\<close>

text \<open>\<^verbatim>\<open>n.get(key, [])\<close> for an optional list-valued key.\<close>

definition get_or_empty :: "'a list option \<Rightarrow> 'a list" where
  "get_or_empty v = (case v of None \<Rightarrow> [] | Some xs \<Rightarrow> xs)"

text \<open>\<^verbatim>\<open>lambda links: [link.split(':')[0] for link in links]\<close>\<close>

definition get_service_names :: "string list \<Rightarrow> string list" where
  "get_service_names lnks = map (takeWhile (\<lambda>c. c \<noteq> CHR '':'')) lnks"

text \<open>
  The condition of the list comprehension in \<^verbatim>\<open>visit\<close>: declaration \<open>m\<close> names \<open>nm\<close>
  among its link targets or among its \<^verbatim>\<open>volumes_from\<close> entries.
\<close>

definition references :: "service_dict \<Rightarrow> string \<Rightarrow> bool" where
  "references m nm \<longleftrightarrow>
     nm \<in> set (get_service_names (get_or_empty (links m))) \<or>
     nm \<in> set (get_or_empty (volumes_from m))"

definition dependents :: "service_dict list \<Rightarrow> service_dict \<Rightarrow> service_dict list" where
  "dependents services n = filter (\<lambda>m. references m (name n)) services"

text \<open>The three variables that the closure \<^verbatim>\<open>visit\<close> mutates.\<close>

record sort_state =
  unmarked :: "service_dict list"
  temporary_marked :: "string set"
  sorted_services :: "service_dict list"

text \<open>
  \<^verbatim>\<open>visit(n)\<close>, with the \<^verbatim>\<open>for m in dependents: visit(m)\<close> loop as \<open>visit_each\<close>. An
  exception aborts the whole sort, so the state is only returned on success. The
  recursion is as deep as the longest chain of references; the recursion limit of the
  interpreter is not modelled.
\<close>

function (sequential)
  visit :: "service_dict list \<Rightarrow> service_dict \<Rightarrow> sort_state \<Rightarrow> error + sort_state" and
  visit_each :: "service_dict list \<Rightarrow> service_dict list \<Rightarrow> sort_state \<Rightarrow> error + sort_state"
where
  "visit services n s =
     (if name n \<in> temporary_marked s then
        (if name n \<in> set (get_service_names (get_or_empty (links n))) then
           Inl (DependencyError (SelfLink (name n)))
         else if name n \<in> set (get_or_empty (volumes_from n)) then
           Inl (DependencyError (SelfVolume (name n)))
         else Inl (DependencyError (CircularImport (temporary_marked s))))
      else if n \<in> set (unmarked s) then
        (case visit_each services (dependents services n)
                (s\<lparr>temporary_marked := insert (name n) (temporary_marked s)\<rparr>) of
           Inl e \<Rightarrow> Inl e
         | Inr s' \<Rightarrow>
             if name n \<notin> temporary_marked s' then Inl (KeyError (name n))
             else if n \<notin> set (unmarked s') then Inl ValueError
             else Inr \<lparr>unmarked = remove1 n (unmarked s'),
                       temporary_marked = temporary_marked s' - {name n},
                       sorted_services = n # sorted_services s'\<rparr>)
      else Inr s)"
| "visit_each services [] s = Inr s"
| "visit_each services (m # ms) s =
     (case visit services m s of
        Inl e \<Rightarrow> Inl e
      | Inr s' \<Rightarrow> visit_each services ms s')"
  by pat_completeness auto

text \<open>
  Termination. A successful visit gives back the in-progress set it was given and removes
  declarations from \<open>unmarked\<close> only; with that, the number of names of unmarked
  declarations that are not in progress bounds the depth of the recursion.
\<close>

lemma visit_frame_partial:
  "visit_visit_each_dom (Inl (services, n, s)) \<Longrightarrow> visit services n s = Inr s' \<Longrightarrow>
     temporary_marked s' = temporary_marked s \<and> set (unmarked s') \<subseteq> set (unmarked s)"
  "visit_visit_each_dom (Inr (services, ms, s)) \<Longrightarrow> visit_each services ms s = Inr s' \<Longrightarrow>
     temporary_marked s' = temporary_marked s \<and> set (unmarked s') \<subseteq> set (unmarked s)"
proof (induction services n s and services ms s arbitrary: s' and s'
    rule: visit_visit_each.pinduct)
  case (1 services n s)
  from "1.prems" "1.hyps" have nt: "name n \<notin> temporary_marked s"
    by (auto simp: visit.psimps split: if_splits)
  show ?case
  proof (cases "n \<in> set (unmarked s)")
    case False
    with "1.prems" "1.hyps" nt show ?thesis by (simp add: visit.psimps)
  next
    case True
    let ?s1 = "s\<lparr>temporary_marked := insert (name n) (temporary_marked s)\<rparr>"
    from "1.prems" "1.hyps" nt True obtain s2 where
      s2: "visit_each services (dependents services n) ?s1 = Inr s2" and
      s': "s' = \<lparr>unmarked = remove1 n (unmarked s2),
                 temporary_marked = temporary_marked s2 - {name n},
                 sorted_services = n # sorted_services s2\<rparr>"
      by (auto simp: visit.psimps split: if_splits sum.splits)
    from "1.IH"[OF nt True s2]
    have "temporary_marked s2 = insert (name n) (temporary_marked s)"
      and "set (unmarked s2) \<subseteq> set (unmarked s)" by simp_all
    moreover have "set (remove1 n (unmarked s2)) \<subseteq> set (unmarked s2)"
      by (rule set_remove1_subset)
    ultimately show ?thesis using nt s' by auto
  qed
next
  case (2 services s)
  then show ?case by (simp add: visit_each.psimps)
next
  case (3 services m ms s)
  from "3.prems" "3.hyps" obtain s1 where
    s1: "visit services m s = Inr s1" and s2: "visit_each services ms s1 = Inr s'"
    by (auto simp: visit_each.psimps split: sum.splits)
  from "3.IH"(1)[OF s1] "3.IH"(2)[OF s1 s2] show ?case by auto
qed

lemma card_names_insert_less:
  assumes "n \<in> set U" "name n \<notin> T"
  shows "card (name ` set U - insert (name n) T) < card (name ` set U - T)"
proof (rule psubset_card_mono)
  show "finite (name ` set U - T)" by simp
  have "name n \<in> name ` set U - T" using assms by simp
  then show "name ` set U - insert (name n) T \<subset> name ` set U - T" by blast
qed

lemma card_names_mono:
  assumes "set U' \<subseteq> set U"
  shows "card (name ` set U' - T) \<le> card (name ` set U - T)"
proof (rule card_mono)
  show "finite (name ` set U - T)" by simp
  show "name ` set U' - T \<subseteq> name ` set U - T" using assms by blast
qed

termination visit
proof (relation "inv_image (less_than <*lex*> less_than)
     (\<lambda>x. case x of
        Inl (sv, n, s) \<Rightarrow> (card (name ` set (unmarked s) - temporary_marked s), 0)
      | Inr (sv, ms, s) \<Rightarrow>
          (card (name ` set (unmarked s) - temporary_marked s), Suc (length ms)))",
    goal_cases)
  case 1
  show ?case by (intro wf_inv_image wf_lex_prod wf_less_than)
next
  case (2 services n s)
  then have "card (name ` set (unmarked s) - insert (name n) (temporary_marked s))
      < card (name ` set (unmarked s) - temporary_marked s)"
    by (intro card_names_insert_less)
  then show ?case by (simp del: card_Diff_insert)
next
  case (3 services m ms s)
  show ?case by simp
next
  case (4 services m ms s s')
  from visit_frame_partial(1)[OF 4(2,1)]
  have "temporary_marked s' = temporary_marked s" "set (unmarked s') \<subseteq> set (unmarked s)"
    by simp_all
  then have "card (name ` set (unmarked s') - temporary_marked s')
      \<le> card (name ` set (unmarked s) - temporary_marked s)"
    using card_names_mono[of "unmarked s'" "unmarked s" "temporary_marked s"] by simp
  then show ?case by auto
qed

declare visit.simps [simp del]











section \<open>The dependency graph and the invariants of the traversal\<close>










subsection \<open>A successful run lists every declaration before the ones that reference it\<close>




subsection \<open>A failing run raises the error of a closing visit\<close>


subsection \<open>The loop and the whole sort\<close>





subsection \<open>An output with the dependents after their targets excludes every cycle\<close>






subsection \<open>Consequences for the output order and for cycles\<close>










subsection \<open>The part the input order plays\<close>






section \<open>The registry: \<^verbatim>\<open>class Project\<close>\<close>

text \<open>
  Modelled from the spec: the class \<^verbatim>\<open>Service\<close> and the tuple \<^verbatim>\<open>ServiceLink\<close> of
  \<^verbatim>\<open>fig/service.py\<close>, which is not among the sources. A service has a name and its links,
  each a pair of the target service and an optional alias; \<open>oid\<close> stands for the identity
  of the Python object, which is what \<^verbatim>\<open>s not in uniques\<close> compares. Links are given to
  the constructor, so they point at services built before: the structure is well-founded.
  The other attributes of a service play no part in the functions modelled here.
\<close>

datatype service =
  Service (oid: nat) (service_name: string) (service_links: "(service \<times> string option) list")

text \<open>
  Modelled from the spec: \<^verbatim>\<open>Service.get_linked_services\<close> (\<^verbatim>\<open>getLinkedServices() ->
  sequence<Service>\<close>), the targets of the service's links in declared order.
\<close>

definition get_linked_services :: "service \<Rightarrow> service list" where
  "get_linked_services s = map fst (service_links s)"

text \<open>
  Modelled from the spec: \<^verbatim>\<open>Container.from_id(client, id)\<close> of \<^verbatim>\<open>fig/container.py\<close>, the
  lookup \<^verbatim>\<open>inspectContainer(id) -> containerInfo | NotFound\<close> of the runtime client. The
  client answers each id with a container or with nothing (\<^verbatim>\<open>APIError\<close>); the ids it was
  asked for are logged, so that the order of the attempts can be stated.
\<close>

datatype container = Container (container_id: string)

type_synonym client = "string \<Rightarrow> container option"


text \<open>
  The attributes of a \<^verbatim>\<open>Project\<close>: \<^verbatim>\<open>self.name\<close> (here \<open>project_name\<close>),
  \<^verbatim>\<open>self.services\<close>, \<^verbatim>\<open>self.client\<close> and \<^verbatim>\<open>self.namespace\<close>.
\<close>

record project =
  project_name :: string
  services :: "service list"
  client :: client
  namespace :: string

text \<open>\<^verbatim>\<open>Project.__init__\<close>: \<^verbatim>\<open>self.namespace = namespace or name\<close>.\<close>

definition Project :: "string \<Rightarrow> service list \<Rightarrow> client \<Rightarrow> string option \<Rightarrow> project" where
  "Project nm svcs cl ns =
     \<lparr>project_name = nm, services = svcs, client = cl,
      namespace = (case ns of None \<Rightarrow> nm | Some n \<Rightarrow> if n = [] then nm else n)\<rparr>"

text \<open>
  \<^verbatim>\<open>name.rsplit(sep, 1)\<close> for a \<open>name\<close> that contains \<open>sep\<close>: the part before the last
  separator and the part after it.
\<close>

definition rsplit1 :: "char \<Rightarrow> string \<Rightarrow> string \<times> string" where
  "rsplit1 sep nm =
     (rev (tl (dropWhile (\<lambda>c. c \<noteq> sep) (rev nm))), rev (takeWhile (\<lambda>c. c \<noteq> sep) (rev nm)))"

text \<open>
  The loop \<^verbatim>\<open>for service in self.services: if service.name == service_name: return
  service\<close>.
\<close>

definition find_service :: "service list \<Rightarrow> string \<Rightarrow> service option" where
  "find_service svcs nm = find (\<lambda>service. service_name service = nm) svcs"

definition get_service :: "project \<Rightarrow> string \<Rightarrow> error + service" where
  "get_service self nm =
     (let (project_name', service_name') =
        (if CHR ''_'' \<in> set nm then
           (let (project_name', service_name') = rsplit1 CHR ''_'' nm in
            if project_name' \<noteq> namespace self
            then (namespace self @ project_name', service_name')
            else (project_name', service_name'))
         else (project_name self, nm))
      in if project_name' = project_name self then
           (case find_service (services self) service_name' of
              Some service \<Rightarrow> Inr service
            | None \<Rightarrow> Inl (NoSuchService nm))
         else Inl (NoSuchService nm))"

definition all_services :: "project \<Rightarrow> service list" where
  "all_services self = services self"

text \<open>\<^verbatim>\<open>flat_map(func, seq) = list(chain.from_iterable(map(func, seq)))\<close>\<close>

definition flat_map :: "('a \<Rightarrow> 'b list) \<Rightarrow> 'a list \<Rightarrow> 'b list" where
  "flat_map func seq = concat (map func seq)"

lemma flat_map_cong [fundef_cong]:
  "xs = ys \<Longrightarrow> (\<And>x. x \<in> set ys \<Longrightarrow> f x = g x) \<Longrightarrow> flat_map f xs = flat_map g ys"
  by (simp add: flat_map_def cong: map_cong)

lemma size_linked_service:
  "x \<in> set (get_linked_services s) \<Longrightarrow> size x < size s"
proof (cases s)
  case (Service i nm ls)
  assume "x \<in> set (get_linked_services s)"
  with Service obtain a where "(x, a) \<in> set ls" by (auto simp: get_linked_services_def)
  then have "size x < Suc (size_list (size_prod size (\<lambda>_. 0)) ls)"
    by (induction ls) auto
  with Service show ?thesis by simp
qed

text \<open>The local function \<^verbatim>\<open>_add_linked_services\<close> of \<^verbatim>\<open>get_services\<close>.\<close>

function add_linked_services :: "service \<Rightarrow> service list" where
  "add_linked_services service =
     (let linked_services = get_linked_services service in
      if linked_services = [] then [service]
      else flat_map add_linked_services linked_services @ [service])"
  by pat_completeness auto
termination
  by (relation "measure size") (auto simp: size_linked_service)

declare add_linked_services.simps [simp del]

text \<open>
  The list comprehension \<^verbatim>\<open>[self.get_service(name) for name in service_names]\<close>: the
  first name that does not resolve raises.
\<close>

fun get_each :: "project \<Rightarrow> string list \<Rightarrow> error + service list" where
  "get_each self [] = Inr []"
| "get_each self (nm # nms) =
     (case get_service self nm of
        Inl e \<Rightarrow> Inl e
      | Inr service \<Rightarrow>
          (case get_each self nms of
             Inl e \<Rightarrow> Inl e
           | Inr rest \<Rightarrow> Inr (service # rest)))"

text \<open>\<^verbatim>\<open>[uniques.append(s) for s in services if s not in uniques]\<close>, from \<open>uniques\<close> on.\<close>

fun append_uniques :: "'a list \<Rightarrow> 'a list \<Rightarrow> 'a list" where
  "append_uniques uniques [] = uniques"
| "append_uniques uniques (s # ss) =
     append_uniques (if s \<notin> set uniques then uniques @ [s] else uniques) ss"

text \<open>
  \<^verbatim>\<open>get_services(service_names=None, include_links=False)\<close>; \<^verbatim>\<open>not service_names\<close> holds
  for \<open>None\<close> and for the empty list.
\<close>

definition get_services :: "project \<Rightarrow> string list option \<Rightarrow> bool \<Rightarrow> error + service list" where
  "get_services self service_names include_links =
     (case service_names of
        None \<Rightarrow> Inr (all_services self)
      | Some names \<Rightarrow>
          if names = [] then Inr (all_services self)
          else case get_each self names of
                 Inl e \<Rightarrow> Inl e
               | Inr svcs \<Rightarrow>
                   Inr (append_uniques []
                          (if include_links then flat_map add_linked_services svcs
                           else svcs)))"








section \<open>The registry operations in the words of the specification\<close>

text \<open>\<open>s\<close> is the first service of the list that has the name \<open>nm\<close>.\<close>

definition first_named :: "service list \<Rightarrow> string \<Rightarrow> service \<Rightarrow> bool" where
  "first_named svcs nm s \<longleftrightarrow>
     (\<exists>i<length svcs. svcs ! i = s \<and> service_name s = nm \<and>
        (\<forall>j<i. service_name (svcs ! j) \<noteq> nm))"

text \<open>
  Deduplication keeping the first occurrence of each element and the relative order of
  the elements kept.
\<close>

primrec keep_first :: "'a list \<Rightarrow> 'a list" where
  "keep_first [] = []"
| "keep_first (x # xs) = x # filter (\<lambda>y. y \<noteq> x) (keep_first xs)"

text \<open>
  The depth-first closure of a service under its links: the closures of its link targets,
  in declared order, and then the service itself.
\<close>

function link_closure :: "service \<Rightarrow> service list" where
  "link_closure s = concat (map link_closure (get_linked_services s)) @ [s]"
  by pat_completeness auto
termination
  by (relation "measure size") (auto simp: size_linked_service)

declare link_closure.simps [simp del]




section \<open>Example declarations and registries\<close>













text \<open>
  The services of \<^verbatim>\<open>test_get_services_with_include_links\<close>: \<open>web\<close> links to \<open>db\<close> and
  \<open>console\<close> links to \<open>web\<close>. No container is known to the client.
\<close>

definition db_svc :: service where
  "db_svc = Service 1 ''db'' []"

definition cache_svc :: service where
  "cache_svc = Service 2 ''cache'' []"

definition web_svc :: service where
  "web_svc = Service 3 ''web'' [(db_svc, Some ''database'')]"

definition console_svc :: service where
  "console_svc = Service 4 ''console'' [(web_svc, Some ''web'')]"

definition no_containers :: client where
  "no_containers = (\<lambda>_. None)"

definition test_project :: project where
  "test_project =
     Project ''test'' [web_svc, db_svc, cache_svc, console_svc] no_containers None"

definition web_db_project :: project where
  "web_db_project = Project ''test'' [web_svc, db_svc] no_containers None"


text \<open>A registry whose namespace is not its name.\<close>

definition sub_project :: project where
  "sub_project = Project ''sub'' [web_svc] no_containers (Some ''top'')"






section \<open>Properties of \<^verbatim>\<open>sort_service_dicts\<close>\<close>











section \<open>Properties of the registry\<close>

subsection \<open>Lookup by name\<close>

lemma rsplit1_append:
  assumes "sep \<notin> set t"
  shows "rsplit1 sep (p @ sep # t) = (p, t)"
proof -
  from assms have n: "\<And>x. x \<in> set (rev t) \<Longrightarrow> x \<noteq> sep" by auto
  from takeWhile_append2[of "rev t" "\<lambda>c. c \<noteq> sep" "sep # rev p", OF n]
  have "takeWhile (\<lambda>c. c \<noteq> sep) (rev t @ sep # rev p) = rev t" by simp
  moreover from dropWhile_append2[of "rev t" "\<lambda>c. c \<noteq> sep" "sep # rev p", OF n]
  have "dropWhile (\<lambda>c. c \<noteq> sep) (rev t @ sep # rev p) = sep # rev p" by simp
  ultimately show ?thesis by (simp add: rsplit1_def)
qed

lemma find_service_first_named:
  "find_service svcs nm = Some s \<longleftrightarrow> first_named svcs nm s"
  unfolding find_service_def first_named_def find_Some_iff by auto

lemma find_service_none:
  "find_service svcs nm = None \<longleftrightarrow> (\<forall>x\<in>set svcs. service_name x \<noteq> nm)"
  unfolding find_service_def find_None_iff by auto

text \<open>
  C3, as amended. \<^verbatim>\<open>get_service\<close> splits a key that contains \<open>_\<close> at the last one into a
  candidate and a short name; a candidate different from the registry's namespace gets
  the namespace prepended. When the project name so resolved equals the registry's
  \<^emph>\<open>name\<close> (which is its namespace only by default), the first service with the short
  name is returned, and \<^verbatim>\<open>NoSuchService\<close> carrying the key is raised otherwise. A key
  without \<open>_\<close> is looked up under the registry's own name. The lookup \<open>find_service\<close>
  finds the first service of the registry with the name, and nothing exactly when no
  service has it.
\<close>

theorem get_service_resolution:
  "(CHR ''_'' \<notin> set short \<longrightarrow>
      get_service self (candidate @ CHR ''_'' # short) =
        (if (if candidate \<noteq> namespace self then namespace self @ candidate else candidate)
              = project_name self
         then (case find_service (services self) short of
                 Some service \<Rightarrow> Inr service
               | None \<Rightarrow> Inl (NoSuchService (candidate @ CHR ''_'' # short)))
         else Inl (NoSuchService (candidate @ CHR ''_'' # short)))) \<and>
   (CHR ''_'' \<notin> set key \<longrightarrow>
      get_service self key =
        (case find_service (services self) key of
           Some service \<Rightarrow> Inr service
         | None \<Rightarrow> Inl (NoSuchService key))) \<and>
   (find_service svcs nm = Some s \<longleftrightarrow> first_named svcs nm s) \<and>
   (find_service svcs nm = None \<longleftrightarrow> (\<forall>x\<in>set svcs. service_name x \<noteq> nm))"
proof (intro conjI impI)
  assume "CHR ''_'' \<notin> set short"
  from rsplit1_append[OF this, of candidate]
  show "get_service self (candidate @ CHR ''_'' # short) =
        (if (if candidate \<noteq> namespace self then namespace self @ candidate else candidate)
              = project_name self
         then (case find_service (services self) short of
                 Some service \<Rightarrow> Inr service
               | None \<Rightarrow> Inl (NoSuchService (candidate @ CHR ''_'' # short)))
         else Inl (NoSuchService (candidate @ CHR ''_'' # short)))"
    by (simp add: get_service_def)
next
  assume "CHR ''_'' \<notin> set key"
  then show "get_service self key =
        (case find_service (services self) key of
           Some service \<Rightarrow> Inr service
         | None \<Rightarrow> Inl (NoSuchService key))"
    by (simp add: get_service_def)
next
  show "find_service svcs nm = Some s \<longleftrightarrow> first_named svcs nm s"
    by (rule find_service_first_named)
next
  show "find_service svcs nm = None \<longleftrightarrow> (\<forall>x\<in>set svcs. service_name x \<noteq> nm)"
    by (rule find_service_none)
qed

text \<open>
  On the registry named \<open>test\<close>, the keys \<open>test_web\<close> and \<open>web\<close> both resolve to the
  service \<open>web\<close>.
\<close>

theorem get_service_resolution_witness:
  "get_service test_project ''test_web'' = Inr web_svc \<and>
   get_service test_project ''web'' = Inr web_svc \<and>
   first_named (services test_project) ''web'' web_svc"
proof -
  have f: "find_service (services test_project) ''web'' = Some web_svc" by code_simp
  have n: "namespace test_project = ''test''" "project_name test_project = ''test''"
    by (simp_all add: test_project_def Project_def)
  from get_service_resolution[of "''web''" test_project "''test''" "''web''"
      "services test_project" "''web''" web_svc] f n
  show ?thesis by simp
qed

text \<open>
  C3 as stated fails. The registry \<open>sub_project\<close> has the name \<open>sub\<close> and the namespace
  \<open>top\<close>. The key \<open>top_web\<close> splits into the candidate \<open>top\<close>, which is the registry's
  namespace, and the short name \<open>web\<close> of a registered service; yet \<^verbatim>\<open>get_service\<close>
  raises \<^verbatim>\<open>NoSuchService\<close>, because the resolved name is compared with \<open>sub\<close>.
\<close>

theorem get_service_resolution_counterexample:
  "namespace sub_project = ''top'' \<and>
   rsplit1 CHR ''_'' ''top_web'' = (''top'', ''web'') \<and>
   find_service (services sub_project) ''web'' = Some web_svc \<and>
   get_service sub_project ''top_web'' = Inl (NoSuchService ''top_web'')"
  by code_simp




subsection \<open>Selecting services\<close>

lemma set_keep_first: "set (keep_first xs) = set xs"
  by (induction xs) auto

lemma distinct_keep_first: "distinct (keep_first xs)"
  by (induction xs) (auto simp: set_keep_first)

lemma remdups_snoc: "remdups (ys @ [x]) = filter (\<lambda>y. y \<noteq> x) (remdups ys) @ [x]"
  by (induction ys) auto

lemma keep_first_remdups: "keep_first xs = rev (remdups (rev xs))"
proof (induction xs)
  case Nil
  show ?case by simp
next
  case (Cons x xs)
  have "rev (remdups (rev (x # xs))) = x # filter (\<lambda>y. y \<noteq> x) (rev (remdups (rev xs)))"
    by (simp add: remdups_snoc rev_filter)
  with Cons.IH show ?case by simp
qed

lemma append_uniques_keep_first:
  "append_uniques u xs = u @ filter (\<lambda>y. y \<notin> set u) (keep_first xs)"
proof (induction xs arbitrary: u)
  case Nil
  show ?case by simp
next
  case (Cons x xs)
  show ?case
  proof (cases "x \<in> set u")
    case True
    then have "filter (\<lambda>y. y \<notin> set u) (filter (\<lambda>y. y \<noteq> x) (keep_first xs))
        = filter (\<lambda>y. y \<notin> set u) (keep_first xs)"
      by (auto intro: filter_cong)
    with True Cons.IH[of u] show ?thesis by simp
  next
    case False
    have "filter (\<lambda>y. y \<notin> set (u @ [x])) (keep_first xs)
        = filter (\<lambda>y. y \<notin> set u) (filter (\<lambda>y. y \<noteq> x) (keep_first xs))"
      by (auto intro: filter_cong)
    with False Cons.IH[of "u @ [x]"] show ?thesis by simp
  qed
qed

lemma append_uniques_empty: "append_uniques [] xs = keep_first xs"
  by (simp add: append_uniques_keep_first)

lemma add_linked_services_closure: "add_linked_services s = link_closure s"
proof (induction s rule: add_linked_services.induct)
  case (1 service)
  show ?case
  proof (cases "get_linked_services service = []")
    case True
    then show ?thesis
      by (simp add: add_linked_services.simps[of service] link_closure.simps[of service])
  next
    case False
    from "1.IH"[OF refl False]
    have "map add_linked_services (get_linked_services service)
        = map link_closure (get_linked_services service)" by simp
    then have c: "concat (map add_linked_services (get_linked_services service))
        = concat (map link_closure (get_linked_services service))" by (simp only:)
    from False show ?thesis
      by (simp add: add_linked_services.simps[of service] link_closure.simps[of service]
          flat_map_def c)
  qed
qed

lemma add_linked_services_eq: "add_linked_services = link_closure"
  by (rule ext) (rule add_linked_services_closure)

lemma get_each_resolved:
  "list_all2 (\<lambda>nm s. get_service self nm = Inr s) names requested \<Longrightarrow>
     get_each self names = Inr requested"
  by (induction names requested rule: list_all2_induct) simp_all

lemma get_service_error: "get_service self nm = Inl e \<Longrightarrow> e = NoSuchService nm"
  by (auto simp: get_service_def Let_def split: if_splits option.splits prod.splits)

lemma get_each_unresolved:
  "\<exists>nm\<in>set names. \<forall>s. get_service self nm \<noteq> Inr s \<Longrightarrow>
     \<exists>nm\<in>set names. get_each self names = Inl (NoSuchService nm)"
proof (induction names)
  case Nil
  then show ?case by simp
next
  case (Cons nm names)
  show ?case
  proof (cases "get_service self nm")
    case (Inl e)
    with get_service_error[OF Inl] show ?thesis by simp
  next
    case (Inr s)
    with Cons.prems have "\<exists>nm\<in>set names. \<forall>s. get_service self nm \<noteq> Inr s" by auto
    from Cons.IH[OF this] obtain nm' where "nm' \<in> set names"
      "get_each self names = Inl (NoSuchService nm')" by blast
    with Inr show ?thesis by auto
  qed
qed

text \<open>
  C2. For every registry and every non-empty list of names that all resolve,
  \<^verbatim>\<open>get_services\<close> with \<^verbatim>\<open>include_links=True\<close> returns, for the requested services in
  requested order, the depth-first closure of the linked services followed by the service
  itself, the concatenation deduplicated keeping first occurrences. (A name that does
  not resolve raises \<^verbatim>\<open>NoSuchService\<close>.)
\<close>

theorem get_services_include_links:
  assumes "names \<noteq> []"
  shows "(list_all2 (\<lambda>nm s. get_service self nm = Inr s) names requested \<longrightarrow>
            get_services self (Some names) True
              = Inr (keep_first (concat (map link_closure requested)))) \<and>
         ((\<exists>nm\<in>set names. \<forall>s. get_service self nm \<noteq> Inr s) \<longrightarrow>
            (\<exists>nm\<in>set names. get_services self (Some names) True = Inl (NoSuchService nm)))"
proof (intro conjI impI)
  assume "list_all2 (\<lambda>nm s. get_service self nm = Inr s) names requested"
  from get_each_resolved[OF this] assms
  show "get_services self (Some names) True
      = Inr (keep_first (concat (map link_closure requested)))"
    by (simp add: get_services_def append_uniques_empty flat_map_def
        add_linked_services_eq)
next
  assume "\<exists>nm\<in>set names. \<forall>s. get_service self nm \<noteq> Inr s"
  from get_each_unresolved[OF this] assms
  show "\<exists>nm\<in>set names. get_services self (Some names) True = Inl (NoSuchService nm)"
    by (auto simp: get_services_def)
qed

text \<open>
  With \<open>web\<close> linking \<open>db\<close> and \<open>console\<close> linking \<open>web\<close>, requesting \<open>console\<close> gives
  \<open>db\<close>, \<open>web\<close>, \<open>console\<close>; requesting \<open>web\<close> and \<open>db\<close> gives \<open>db\<close>, \<open>web\<close>; and
  requesting a name that is not registered raises \<^verbatim>\<open>NoSuchService\<close>.
\<close>

theorem get_services_include_links_witness:
  "get_services test_project (Some [''console'']) True = Inr [db_svc, web_svc, console_svc] \<and>
   get_services web_db_project (Some [''web'', ''db'']) True = Inr [db_svc, web_svc] \<and>
   (\<exists>nm\<in>set [''web'', ''missing''].
      get_services web_db_project (Some [''web'', ''missing'']) True = Inl (NoSuchService nm))"
proof -
  have 5: "\<exists>nm\<in>set [''web'', ''missing'']. \<forall>s. get_service web_db_project nm \<noteq> Inr s"
  proof (intro bexI[of _ "''missing''"] allI)
    have "get_service web_db_project ''missing'' = Inl (NoSuchService ''missing'')"
      by code_simp
    then show "get_service web_db_project ''missing'' \<noteq> Inr s" for s by simp
  qed simp
  from get_services_include_links[of "[''web'', ''missing'']" web_db_project] 5
  have c: "\<exists>nm\<in>set [''web'', ''missing''].
      get_services web_db_project (Some [''web'', ''missing'']) True = Inl (NoSuchService nm)"
    by blast
  have 1: "list_all2 (\<lambda>nm s. get_service test_project nm = Inr s) [''console''] [console_svc]"
    by code_simp
  have 2: "list_all2 (\<lambda>nm s. get_service web_db_project nm = Inr s) [''web'', ''db'']
      [web_svc, db_svc]"
    by code_simp
  have 3: "keep_first (concat (map link_closure [console_svc])) = [db_svc, web_svc, console_svc]"
    by code_simp
  have 4: "keep_first (concat (map link_closure [web_svc, db_svc])) = [db_svc, web_svc]"
    by code_simp
  from get_services_include_links[of "[''console'']" test_project "[console_svc]"] 1 3
  have "get_services test_project (Some [''console'']) True = Inr [db_svc, web_svc, console_svc]"
    by simp
  moreover
  from get_services_include_links[of "[''web'', ''db'']" web_db_project "[web_svc, db_svc]"] 2 4
  have "get_services web_db_project (Some [''web'', ''db'']) True = Inr [db_svc, web_svc]"
    by simp
  ultimately show ?thesis using c by blast
qed

text \<open>
  C10. Without link expansion too, \<^verbatim>\<open>get_services\<close> deduplicates: for every non-empty
  list of names that all resolve, the result is the list of resolved services with only
  the first occurrence of each kept, so each resolved service appears exactly once.
  (\<open>remdups\<close> keeps last occurrences; on the reversed list these are the first ones.)
\<close>

theorem get_services_removes_duplicates:
  assumes "names \<noteq> []"
    and "list_all2 (\<lambda>nm s. get_service self nm = Inr s) names requested"
  shows "get_services self (Some names) False = Inr (keep_first requested) \<and>
         distinct (keep_first requested) \<and> set (keep_first requested) = set requested \<and>
         keep_first requested = rev (remdups (rev requested))"
proof (intro conjI)
  from get_each_resolved[OF assms(2)] assms(1)
  show "get_services self (Some names) False = Inr (keep_first requested)"
    by (simp add: get_services_def append_uniques_empty)
  show "distinct (keep_first requested)" by (rule distinct_keep_first)
  show "set (keep_first requested) = set requested" by (rule set_keep_first)
  show "keep_first requested = rev (remdups (rev requested))" by (rule keep_first_remdups)
qed

text \<open>Requesting \<open>web\<close> twice gives \<open>web\<close> once.\<close>

theorem get_services_removes_duplicates_witness:
  "get_services test_project (Some [''web'', ''web'']) False = Inr [web_svc]"
proof -
  have 1: "list_all2 (\<lambda>nm s. get_service test_project nm = Inr s) [''web'', ''web'']
      [web_svc, web_svc]"
    by code_simp
  from get_services_removes_duplicates[OF _ 1] show ?thesis by simp
qed

subsection \<open>Resolving \<^verbatim>\<open>volumes_from\<close>\<close>






subsection \<open>Stopping and killing\<close>






end
